theory Spec2Isabelle
  imports Complex_Main
begin

section \<open>Strings and character classes\<close>

text \<open>
  A Python \<open>str\<close> is a sequence of code points. The model covers the texts whose code
  points are below 256: one \<open>char\<close> stands for one code point, \<open>codepoint\<close> is Python's
  \<open>ord\<close>. On these code points the classes below are the ones of Python's \<open>re\<close> module
  for \<open>str\<close> patterns and of \<open>str.isspace\<close>.
\<close>

definition codepoint :: "char \<Rightarrow> nat" where
  "codepoint c = of_char c"

text \<open>The class of white space of \<open>re\<close> and of \<open>str.isspace\<close>: TAB, LF, VT, FF, CR, FS, GS, RS, US,
  space, NEL, NBSP.\<close>

definition is_space :: "char \<Rightarrow> bool" where
  "is_space c = (let n = codepoint c in
     (9 \<le> n \<and> n \<le> 13) \<or> (28 \<le> n \<and> n \<le> 32) \<or> n = 133 \<or> n = 160)"

text \<open>The class of digits of \<open>re\<close>: the decimal digits.\<close>

definition is_digit :: "char \<Rightarrow> bool" where
  "is_digit c = (let n = codepoint c in 48 \<le> n \<and> n \<le> 57)"

definition is_upper :: "char \<Rightarrow> bool" where
  "is_upper c = (let n = codepoint c in 65 \<le> n \<and> n \<le> 90)"

definition is_lower :: "char \<Rightarrow> bool" where
  "is_lower c = (let n = codepoint c in 97 \<le> n \<and> n \<le> 122)"

text \<open>The class of word characters of \<open>re\<close>: the alphanumeric code points and the underscore.\<close>

definition is_word :: "char \<Rightarrow> bool" where
  "is_word c = (let n = codepoint c in
     is_digit c \<or> is_upper c \<or> is_lower c \<or> n = 95 \<or>
     n = 170 \<or> n = 178 \<or> n = 179 \<or> n = 181 \<or> n = 185 \<or> n = 186 \<or>
     (188 \<le> n \<and> n \<le> 190) \<or> (192 \<le> n \<and> n \<le> 214) \<or>
     (216 \<le> n \<and> n \<le> 246) \<or> 248 \<le> n)"

text \<open>Lower-casing of the letters A to Z; the patterns of the program that are matched
  case-insensitively spell their letters in ASCII.\<close>

definition to_lower :: "char \<Rightarrow> char" where
  "to_lower c = (if is_upper c then char_of (codepoint c + 32) else c)"

definition newline :: char where
  "newline = CHR 0x0A"

definition tab :: char where
  "tab = CHR 0x09"

definition plus_minus :: char where
  "plus_minus = CHR 0xB1"

section \<open>Regular expressions with the backtracking order of \<open>re\<close>\<close>

text \<open>
  A cursor is a position in the subject: the character before it (none at the start of
  the subject) and the text from it on.
\<close>

type_synonym cursor = "char option \<times> string"

datatype re =
    Cls "char \<Rightarrow> bool"
  | Eps
  | Cat re re
  | Alt re re
  | Star re
  | LazyStar re
  | WordB
  | Bol
  | Eol
  | BolM
  | EolM

definition word_before :: "char option \<Rightarrow> bool" where
  "word_before p = (case p of None \<Rightarrow> False | Some c \<Rightarrow> is_word c)"

definition word_after :: "string \<Rightarrow> bool" where
  "word_after rest = (case rest of [] \<Rightarrow> False | c # cs \<Rightarrow> is_word c)"

text \<open>
  \<open>ends r cur\<close> lists the cursors at which a match of \<open>r\<close> started at \<open>cur\<close> can end, in the
  order in which the backtracking matcher tries them: the first alternative before the
  second, a greedy repetition longest first, a lazy one shortest first. A repetition does
  not iterate again after an iteration that consumed nothing.
\<close>

function ends :: "re \<Rightarrow> cursor \<Rightarrow> cursor list" where
  "ends (Cls P) cur = (case snd cur of [] \<Rightarrow> [] | c # cs \<Rightarrow> if P c then [(Some c, cs)] else [])"
| "ends Eps cur = [cur]"
| "ends (Cat a b) cur = concat (map (ends b) (ends a cur))"
| "ends (Alt a b) cur = ends a cur @ ends b cur"
| "ends (Star a) cur =
     concat (map (\<lambda>nxt. if length (snd nxt) < length (snd cur) then ends (Star a) nxt else [nxt])
                 (ends a cur)) @ [cur]"
| "ends (LazyStar a) cur =
     cur # concat (map (\<lambda>nxt. if length (snd nxt) < length (snd cur) then ends (LazyStar a) nxt else [])
                       (ends a cur))"
| "ends WordB cur = (if word_before (fst cur) \<noteq> word_after (snd cur) then [cur] else [])"
| "ends Bol cur = (if fst cur = None then [cur] else [])"
| "ends Eol cur = (if snd cur = [] \<or> snd cur = [newline] then [cur] else [])"
| "ends BolM cur = (if fst cur = None \<or> fst cur = Some newline then [cur] else [])"
| "ends EolM cur = (case snd cur of [] \<Rightarrow> [cur] | c # cs \<Rightarrow> if c = newline then [cur] else [])"
  by pat_completeness auto
termination
  by (relation "measures [\<lambda>(r, cur). size r, \<lambda>(r, cur). length (snd cur)]") auto

declare ends.simps(5,6) [simp del]


subsection \<open>The pattern notation\<close>

definition chr :: "char \<Rightarrow> re" where
  "chr c = Cls (\<lambda>x. x = c)"

text \<open>A literal character under \<open>re.IGNORECASE\<close>.\<close>

definition chr_i :: "char \<Rightarrow> re" where
  "chr_i c = Cls (\<lambda>x. to_lower x = to_lower c)"

definition seq :: "re list \<Rightarrow> re" where
  "seq rs = foldr Cat rs Eps"

definition alts :: "re \<Rightarrow> re list \<Rightarrow> re" where
  "alts r rs = foldl Alt r rs"

definition lit :: "string \<Rightarrow> re" where
  "lit s = seq (map chr s)"

definition lit_i :: "string \<Rightarrow> re" where
  "lit_i s = seq (map chr_i s)"

text \<open>The postfix operators \<open>+\<close>, \<open>?\<close>, \<open>{n}\<close> and \<open>{n,}\<close>.\<close>

definition one_or_more :: "re \<Rightarrow> re" where
  "one_or_more r = Cat r (Star r)"

definition optional :: "re \<Rightarrow> re" where
  "optional r = Alt r Eps"

primrec exactly :: "nat \<Rightarrow> re \<Rightarrow> re" where
  "exactly 0 r = Eps"
| "exactly (Suc n) r = Cat r (exactly n r)"

primrec at_least :: "nat \<Rightarrow> re \<Rightarrow> re" where
  "at_least 0 r = Star r"
| "at_least (Suc n) r = Cat r (at_least n r)"

definition digit :: re where
  "digit = Cls is_digit"

definition space :: re where
  "space = Cls is_space"

definition non_space :: re where
  "non_space = Cls (\<lambda>c. \<not> is_space c)"

definition word :: re where
  "word = Cls is_word"

text \<open>The dot: every character but the newline, and every character under \<open>re.DOTALL\<close>.\<close>

definition dot :: re where
  "dot = Cls (\<lambda>c. c \<noteq> newline)"

definition dot_all :: re where
  "dot_all = Cls (\<lambda>c. True)"

subsection \<open>\<open>re.search\<close>, \<open>re.match\<close>, \<open>re.sub\<close> and \<open>re.findall\<close>\<close>

text \<open>
  \<open>re.search\<close> returns the leftmost match, and at that position the first one in
  backtracking order. The result holds the text from the start of the match on and the
  text from its end on.
\<close>

fun search_from :: "re \<Rightarrow> char option \<Rightarrow> string \<Rightarrow> (string \<times> string) option" where
  "search_from r p [] = (case ends r (p, []) of [] \<Rightarrow> None | e # es \<Rightarrow> Some ([], snd e))"
| "search_from r p (c # cs) =
     (case ends r (p, c # cs) of
        [] \<Rightarrow> search_from r (Some c) cs
      | e # es \<Rightarrow> Some (c # cs, snd e))"

definition re_search :: "re \<Rightarrow> string \<Rightarrow> (string \<times> string) option" where
  "re_search r text = search_from r None text"

text \<open>\<open>re.match\<close> tries the start of the subject only; the program tests its result for truth.\<close>

definition re_match :: "re \<Rightarrow> string \<Rightarrow> bool" where
  "re_match r text = (ends r (None, text) \<noteq> [])"

text \<open>
  The scan that \<open>re.sub\<close> and \<open>re.findall\<close> share: the non-overlapping matches from left to
  right, each one searched from the end of the one before. After an empty match the next
  match at the same position has to be non-empty (\<open>adv\<close>).
\<close>

datatype tok = Keep char | Hit string

function scan :: "re \<Rightarrow> bool \<Rightarrow> char option \<Rightarrow> string \<Rightarrow> tok list" where
  "scan r adv p rest =
     (case filter (\<lambda>e. \<not> adv \<or> length (snd e) < length rest) (ends r (p, rest)) of
        e # es \<Rightarrow>
          Hit (take (length rest - length (snd e)) rest) #
            (if length (snd e) < length rest then scan r False (fst e) (snd e)
             else if \<not> adv then scan r True p rest
             else [])
      | [] \<Rightarrow> (case rest of [] \<Rightarrow> [] | c # cs \<Rightarrow> Keep c # scan r False (Some c) cs))"
  by pat_completeness auto
termination
  by (relation "measures [\<lambda>(r, adv, p, rest). length rest, \<lambda>(r, adv, p, rest). if adv then 0 else 1]")
    auto

declare scan.simps [simp del]

text \<open>The substitution from a cursor on, and \<open>re.sub\<close>.\<close>

definition sub_from :: "re \<Rightarrow> string \<Rightarrow> char option \<Rightarrow> string \<Rightarrow> string" where
  "sub_from r repl p rest =
     concat (map (\<lambda>t. case t of Keep c \<Rightarrow> [c] | Hit m \<Rightarrow> repl) (scan r False p rest))"

definition re_sub :: "re \<Rightarrow> string \<Rightarrow> string \<Rightarrow> string" where
  "re_sub r repl text = sub_from r repl None text"

definition re_findall :: "re \<Rightarrow> string \<Rightarrow> string list" where
  "re_findall r text =
     concat (map (\<lambda>t. case t of Keep c \<Rightarrow> [] | Hit m \<Rightarrow> [m]) (scan r False None text))"

section \<open>String methods\<close>

text \<open>\<open>str.split\<close> with a separator character: the pieces between the separators, one at least.\<close>

fun split_on :: "char \<Rightarrow> string \<Rightarrow> string list" where
  "split_on sep [] = [[]]"
| "split_on sep (c # cs) =
     (if c = sep then [] # split_on sep cs
      else (case split_on sep cs of [] \<Rightarrow> [[c]] | l # ls \<Rightarrow> (c # l) # ls))"

text \<open>\<open>sep.join\<close>.\<close>

fun join :: "string \<Rightarrow> string list \<Rightarrow> string" where
  "join sep [] = []"
| "join sep [x] = x"
| "join sep (x # y # ys) = x @ sep @ join sep (y # ys)"

text \<open>
  \<open>str.splitlines\<close>: a line ends at LF, CR, CR LF, VT, FF, FS, GS, RS or NEL; the line ends
  are not kept and a line end at the end of the text opens no further line.
\<close>

definition is_linebreak :: "char \<Rightarrow> bool" where
  "is_linebreak c = (let n = codepoint c in (10 \<le> n \<and> n \<le> 13) \<or> (28 \<le> n \<and> n \<le> 30) \<or> n = 133)"

definition carriage_return :: char where
  "carriage_return = CHR 0x0D"

fun splitlines :: "string \<Rightarrow> string list" where
  "splitlines [] = []"
| "splitlines (c # cs) =
     (if c = carriage_return then
        (case cs of
           [] \<Rightarrow> [[]]
         | d # ds \<Rightarrow> if d = newline then [] # splitlines ds else [] # splitlines cs)
      else if is_linebreak c then [] # splitlines cs
      else (case splitlines cs of [] \<Rightarrow> [[c]] | l # ls \<Rightarrow> (c # l) # ls))"

text \<open>\<open>str.strip\<close> without argument.\<close>

definition strip :: "string \<Rightarrow> string" where
  "strip s = rev (dropWhile is_space (rev (dropWhile is_space s)))"


section \<open>The cleaning module\<close>

datatype error = ZeroDivisionError | DocumentUnreadable | OcrFailure

subsection \<open>The patterns\<close>

text \<open>\<^verbatim>\<open>\babstract\b\<close> with \<open>re.IGNORECASE\<close>.\<close>

definition abstract_re :: re where
  "abstract_re = seq [WordB, lit_i ''abstract'', WordB]"

text \<open>\<^verbatim>\<open>\b(1\.\s*)?introduction\b\<close> with \<open>re.IGNORECASE\<close>.\<close>

definition introduction_re :: re where
  "introduction_re =
     seq [WordB, optional (seq [lit_i ''1.'', Star space]), lit_i ''introduction'', WordB]"

text \<open>\<^verbatim>\<open>(?i)\b(references|acknowledgements|appendix)\b.*\<close> with \<open>re.DOTALL\<close>.\<close>

definition trailing_re :: re where
  "trailing_re =
     seq [WordB, alts (lit_i ''references'') [lit_i ''acknowledgements'', lit_i ''appendix''],
          WordB, Star dot_all]"

text \<open>\<^verbatim>\<open>\[\s*[\w\-]+ et al\., \d{4}(;\s*[\w\-]+ et al\., \d{4})*\s*\]\<close>\<close>

definition word_or_hyphen :: re where
  "word_or_hyphen = Cls (\<lambda>c. is_word c \<or> c = CHR ''-'')"

definition bracket_cite_re :: re where
  "bracket_cite_re =
     seq [chr CHR ''['', Star space, one_or_more word_or_hyphen, lit '' et al., '', exactly 4 digit,
          Star (seq [chr CHR '';'', Star space, one_or_more word_or_hyphen, lit '' et al., '',
                     exactly 4 digit]),
          Star space, chr CHR '']'']"

text \<open>\<^verbatim>\<open>\b\w+ et al\.,? \d{4}\b\<close>\<close>

definition bare_cite_re :: re where
  "bare_cite_re =
     seq [WordB, one_or_more word, lit '' et al.'', optional (chr CHR '',''), chr CHR '' '',
          exactly 4 digit, WordB]"

text \<open>\<^verbatim>\<open>\b[A-Z][a-z]+ et al\.\b\<close>\<close>

definition lone_cite_re :: re where
  "lone_cite_re = seq [WordB, Cls is_upper, one_or_more (Cls is_lower), lit '' et al.'', WordB]"

text \<open>\<^verbatim>\<open>http\S+|www\.\S+|doi:\S+\<close>\<close>

definition url_re :: re where
  "url_re =
     alts (seq [lit ''http'', one_or_more non_space])
          [seq [lit ''www.'', one_or_more non_space], seq [lit ''doi:'', one_or_more non_space]]"

text \<open>\<^verbatim>\<open>\S+@\S+\<close>\<close>

definition email_re :: re where
  "email_re = seq [one_or_more non_space, chr CHR ''@'', one_or_more non_space]"

text \<open>\<^verbatim>\<open>(Table|Figure|Fig\.)\s*\d+.*\<close>\<close>

definition caption_re :: re where
  "caption_re =
     seq [alts (lit ''Table'') [lit ''Figure'', lit ''Fig.''], Star space, one_or_more digit,
          Star dot]"

text \<open>\<^verbatim>\<open>[\d.+-%]\<close> with the plus-minus sign for \<^verbatim>\<open>+-\<close>.\<close>

definition numeric_char_re :: re where
  "numeric_char_re =
     Cls (\<lambda>c. is_digit c \<or> c = CHR ''.'' \<or> c = plus_minus \<or> c = CHR ''%'')"

text \<open>\<^verbatim>\<open>^\s*[\d.,]+(\s+[\d.,%+-]+)*\s*$\<close> with the plus-minus sign for \<^verbatim>\<open>+-\<close>.\<close>

definition numeric_line_re :: re where
  "numeric_line_re =
     seq [Bol, Star space,
          one_or_more (Cls (\<lambda>c. is_digit c \<or> c = CHR ''.'' \<or> c = CHR '','')),
          Star (seq [one_or_more space,
                     one_or_more (Cls (\<lambda>c. is_digit c \<or> c = CHR ''.'' \<or> c = CHR '','' \<or>
                                          c = CHR ''%'' \<or> c = plus_minus))]),
          Star space, Eol]"

text \<open>\<^verbatim>\<open>\s{3,}\<close>\<close>

definition wide_gap_re :: re where
  "wide_gap_re = at_least 3 space"

text \<open>\<^verbatim>\<open>\bPage \d+(\s+of \d+)?\b\<close> with \<open>re.IGNORECASE\<close>.\<close>

definition page_re :: re where
  "page_re =
     seq [WordB, lit_i ''Page '', one_or_more digit,
          optional (seq [one_or_more space, lit_i ''of '', one_or_more digit]), WordB]"

text \<open>The patterns of the form \<^verbatim>\<open>phrase.*?\n\<close>, case-sensitive and with \<open>re.IGNORECASE\<close>.\<close>

definition to_line_end :: "string \<Rightarrow> re" where
  "to_line_end phrase = seq [lit phrase, LazyStar dot, chr newline]"

definition to_line_end_i :: "string \<Rightarrow> re" where
  "to_line_end_i phrase = seq [lit_i phrase, LazyStar dot, chr newline]"

text \<open>\<^verbatim>\<open>^[\s\.\-_]{3,}$\<close> with \<open>re.MULTILINE\<close>. The class of the program also holds the em
  dash, a code point beyond 255.\<close>

definition rule_line_re :: re where
  "rule_line_re =
     seq [BolM,
          at_least 3 (Cls (\<lambda>c. is_space c \<or> c = CHR ''.'' \<or> c = CHR ''-'' \<or> c = CHR ''_'')),
          EolM]"

text \<open>\<^verbatim>\<open>\n{3,}\<close> and \<^verbatim>\<open>[ \t]{2,}\<close>\<close>

definition blank_run_re :: re where
  "blank_run_re = at_least 3 (chr newline)"

definition is_blank :: "char \<Rightarrow> bool" where
  "is_blank c = (c = CHR '' '' \<or> c = tab)"

definition space_run_re :: re where
  "space_run_re = at_least 2 (Cls is_blank)"

subsection \<open>\<open>find_main_start\<close>\<close>

definition find_main_start :: "string \<Rightarrow> string" where
  "find_main_start text =
     (case re_search abstract_re text of
        Some m \<Rightarrow> fst m
      | None \<Rightarrow>
          (case re_search introduction_re text of
             Some m \<Rightarrow> fst m
           | None \<Rightarrow> drop 1000 text))"

subsection \<open>\<open>remove_numeric_blocks\<close>\<close>

text \<open>
  Float division raises on a zero divisor. The quotient is taken in exact arithmetic; the
  divisor of the program is the length plus the literal \<open>1e-6\<close>.
\<close>

definition py_div :: "rat \<Rightarrow> rat \<Rightarrow> error + rat" where
  "py_div a b = (if b = 0 then Inl ZeroDivisionError else Inr (a / b))"

definition digit_ratio :: "string \<Rightarrow> error + rat" where
  "digit_ratio line =
     py_div (of_nat (length (re_findall numeric_char_re line)))
            (of_nat (length line) + 1 / 1000000)"

fun numeric_loop :: "string list \<Rightarrow> nat \<Rightarrow> string list \<Rightarrow> error + string list" where
  "numeric_loop [] numeric_run cleaned = Inr cleaned"
| "numeric_loop (line # lines) numeric_run cleaned =
     (case digit_ratio line of
        Inl e \<Rightarrow> Inl e
      | Inr ratio \<Rightarrow>
          (let numeric_run' =
                 (if ratio > 1 / 2 \<or> re_match numeric_line_re line then numeric_run + 1 else 0)
           in if numeric_run' \<ge> 3 then numeric_loop lines numeric_run' cleaned
              else if numeric_run' = 0 then numeric_loop lines numeric_run' (cleaned @ [line])
              else numeric_loop lines numeric_run' cleaned))"

text \<open>The test of the loop: the line counts as numeric.\<close>

definition numeric_like :: "string \<Rightarrow> bool" where
  "numeric_like line =
     (case digit_ratio line of
        Inl e \<Rightarrow> False
      | Inr ratio \<Rightarrow> ratio > 1 / 2 \<or> re_match numeric_line_re line)"

definition remove_numeric_blocks :: "string \<Rightarrow> error + string" where
  "remove_numeric_blocks text =
     (case numeric_loop (split_on newline text) 0 [] of
        Inl e \<Rightarrow> Inl e
      | Inr cleaned \<Rightarrow> Inr (join [newline] cleaned))"

subsection \<open>\<open>remove_tabular_blocks\<close>\<close>

definition is_tabular :: "string \<Rightarrow> bool" where
  "is_tabular line = (length (re_findall wide_gap_re line) \<ge> 1 \<or> count_list line tab \<ge> 2)"

definition remove_tabular_blocks :: "string \<Rightarrow> string" where
  "remove_tabular_blocks text =
     join [newline] (filter (\<lambda>line. \<not> is_tabular line) (split_on newline text))"

subsection \<open>\<open>remove_headers_footers\<close>\<close>

definition remove_headers_footers :: "string \<Rightarrow> string" where
  "remove_headers_footers text =
     (let text = re_sub page_re [] text;
          text = re_sub (lit ''NIH-PA Author Manuscript'') [] text;
          text = re_sub (to_line_end ''Author manuscript; available in PMC'') [] text;
          text = re_sub (to_line_end ''J Autism Dev Disord'') [] text;
          text = re_sub (to_line_end_i ''bioRxiv'') [] text;
          text = re_sub (to_line_end_i ''medRxiv'') [] text;
          text = re_sub (to_line_end_i ''Scientific Reports'') [] text;
          text = re_sub (to_line_end_i ''Copyright'') [] text;
          text = re_sub (to_line_end_i ''All rights reserved'') [] text;
          text = re_sub rule_line_re [] text
      in text)"

subsection \<open>\<open>clean_text\<close>\<close>

text \<open>The statement of \<open>clean_text\<close> that cuts the trailing sections.\<close>

definition truncate_trailing_sections :: "string \<Rightarrow> string" where
  "truncate_trailing_sections text = re_sub trailing_re [] text"

text \<open>The three statements that remove citations.\<close>

definition remove_citations :: "string \<Rightarrow> string" where
  "remove_citations text =
     (let text = re_sub bracket_cite_re [] text;
          text = re_sub bare_cite_re [] text;
          text = re_sub lone_cite_re [] text
      in text)"

text \<open>The two statements that remove URLs, DOIs and e-mail addresses.\<close>

definition remove_urls :: "string \<Rightarrow> string" where
  "remove_urls text = re_sub email_re [] (re_sub url_re [] text)"

definition remove_captions :: "string \<Rightarrow> string" where
  "remove_captions text = re_sub caption_re [] text"

text \<open>The loop that drops a line equal, after stripping, to the line before it.\<close>

fun dedupe_loop :: "string list \<Rightarrow> string \<Rightarrow> string list \<Rightarrow> string list" where
  "dedupe_loop [] prev deduped = deduped"
| "dedupe_loop (line # lines) prev deduped =
     dedupe_loop lines line (if strip line \<noteq> strip prev then deduped @ [line] else deduped)"

definition collapse_duplicate_lines :: "string \<Rightarrow> string" where
  "collapse_duplicate_lines text = join [newline] (dedupe_loop (splitlines text) [] [])"

text \<open>The last three statements.\<close>

definition normalize_whitespace :: "string \<Rightarrow> string" where
  "normalize_whitespace text =
     strip (re_sub space_run_re '' '' (re_sub blank_run_re [newline, newline] text))"

text \<open>The statements of \<open>clean_text\<close> after the two cuts: the noise filters in their order.\<close>

definition noise_filters :: "string \<Rightarrow> error + string" where
  "noise_filters text =
     (case remove_numeric_blocks (remove_captions (remove_urls (remove_citations text))) of
        Inl e \<Rightarrow> Inl e
      | Inr text \<Rightarrow>
          Inr (normalize_whitespace
                 (collapse_duplicate_lines (remove_headers_footers (remove_tabular_blocks text)))))"

definition clean_text :: "string \<Rightarrow> error + string" where
  "clean_text text = noise_filters (truncate_trailing_sections (find_main_start text))"


section \<open>Documents\<close>

text \<open>
  What the program reads of a PDF file: the text of each page as \<open>get_text\<close> returns it
  (none when \<open>fitz.open\<close> raises) and the text recognised on the image of each page (none
  when the conversion to images or the recognition raises).
\<close>

record pdf =
  page_texts :: "string list option"
  ocr_texts :: "string list option"

subsection \<open>\<open>is_image_based_pdf\<close>\<close>

fun image_loop :: "string list \<Rightarrow> nat list \<Rightarrow> bool" where
  "image_loop doc [] = True"
| "image_loop doc (i # is) = (if strip (doc ! i) \<noteq> [] then False else image_loop doc is)"

definition is_image_based_pdf :: "pdf \<Rightarrow> int \<Rightarrow> error + bool" where
  "is_image_based_pdf pdf_path check_pages =
     (case page_texts pdf_path of
        None \<Rightarrow> Inl DocumentUnreadable
      | Some doc \<Rightarrow> Inr (image_loop doc [0 ..< nat (min (int (length doc)) check_pages)]))"

subsection \<open>\<open>ocr_pdf\<close>\<close>

text \<open>The decimal numeral of a number, as an f-string formats it.\<close>

function str_of_nat :: "nat \<Rightarrow> string" where
  "str_of_nat n =
     (if n < 10 then [char_of (48 + n)] else str_of_nat (n div 10) @ [char_of (48 + n mod 10)])"
  by pat_completeness auto
termination
  by (relation "measure id") auto

fun ocr_loop :: "nat \<Rightarrow> string list \<Rightarrow> string \<Rightarrow> string" where
  "ocr_loop i [] full_text = full_text"
| "ocr_loop i (page_text # images) full_text =
     ocr_loop (i + 1) images
       (full_text @ [newline, newline] @ ''--- Page '' @ str_of_nat (i + 1) @ '' ---'' @
        [newline, newline] @ page_text)"

definition ocr_pdf :: "pdf \<Rightarrow> error + string" where
  "ocr_pdf pdf_path =
     (case ocr_texts pdf_path of
        None \<Rightarrow> Inl OcrFailure
      | Some images \<Rightarrow> Inr (ocr_loop 0 images []))"

subsection \<open>\<open>extract_clean_text_from_pdf\<close>\<close>

text \<open>The text that \<open>extract_clean_text_from_pdf\<close> hands to \<open>clean_text\<close>.\<close>

definition full_text :: "string list \<Rightarrow> string" where
  "full_text text_chunks = join [newline] text_chunks"

definition extract_clean_text_from_pdf :: "pdf \<Rightarrow> error + string" where
  "extract_clean_text_from_pdf pdf_path =
     (case page_texts pdf_path of
        None \<Rightarrow> Inl DocumentUnreadable
      | Some doc \<Rightarrow> clean_text (full_text doc))"

subsection \<open>The batch\<close>

text \<open>
  The files written, by path. \<open>cleaned_path\<close> is the path of the output of a directory
  entry: \<open>os.path.splitext\<close> cuts the last extension of a name that has other characters
  than dots before it.
\<close>

type_synonym files = "string \<rightharpoonup> string"

definition splitext_root :: "string \<Rightarrow> string" where
  "splitext_root p =
     (let stem = rev (drop 1 (dropWhile (\<lambda>c. c \<noteq> CHR ''.'') (rev p)))
      in if CHR ''.'' \<in> set p \<and> (\<exists>c \<in> set stem. c \<noteq> CHR ''.'') then stem else p)"

definition cleaned_path :: "string \<Rightarrow> string \<Rightarrow> string" where
  "cleaned_path output_dir pdf_file = output_dir @ ''/'' @ splitext_root pdf_file @ ''_cleaned.txt''"

definition process_pdf :: "string \<Rightarrow> pdf \<Rightarrow> string \<Rightarrow> files \<Rightarrow> error + files" where
  "process_pdf pdf_file pdf_path output_dir fs =
     (case extract_clean_text_from_pdf pdf_path of
        Inl e \<Rightarrow> Inl e
      | Inr cleaned \<Rightarrow> Inr (fs(cleaned_path output_dir pdf_file \<mapsto> cleaned)))"

definition process_ocr_pdf :: "string \<Rightarrow> pdf \<Rightarrow> string \<Rightarrow> files \<Rightarrow> error + files" where
  "process_ocr_pdf pdf_file pdf_path output_dir fs =
     (case ocr_pdf pdf_path of
        Inl e \<Rightarrow> Inl e
      | Inr raw \<Rightarrow>
          (case clean_text raw of
             Inl e \<Rightarrow> Inl e
           | Inr cleaned \<Rightarrow> Inr (fs(cleaned_path output_dir pdf_file \<mapsto> cleaned))))"

definition endswith :: "string \<Rightarrow> string \<Rightarrow> bool" where
  "endswith s suffix = (length suffix \<le> length s \<and> drop (length s - length suffix) s = suffix)"

text \<open>
  The body of the loop of the main program for one entry of the input directory, and the
  loop. There is no handler around the body: an exception ends the loop, and the files
  written before it stay. The result of the loop is the files and the exception, if any.
\<close>

definition main_body :: "string \<times> pdf \<Rightarrow> files \<Rightarrow> error + files" where
  "main_body entry fs =
     (case entry of (pdf_file, pdf_path) \<Rightarrow>
        if endswith pdf_file ''.pdf'' then
          (case is_image_based_pdf pdf_path 3 of
             Inl e \<Rightarrow> Inl e
           | Inr image_based \<Rightarrow>
               if image_based then process_ocr_pdf pdf_file pdf_path ''cleaned_texts'' fs
               else process_pdf pdf_file pdf_path ''cleaned_texts'' fs)
        else Inr fs)"

fun main_loop :: "(string \<times> pdf) list \<Rightarrow> files \<Rightarrow> files \<times> error option" where
  "main_loop [] fs = (fs, None)"
| "main_loop (entry # entries) fs =
     (case main_body entry fs of
        Inl e \<Rightarrow> (fs, Some e)
      | Inr fs' \<Rightarrow> main_loop entries fs')"


section \<open>Notions of the specification\<close>

text \<open>The character before a cursor that has consumed a piece of text.\<close>

definition prev_char :: "char option \<Rightarrow> string \<Rightarrow> char option" where
  "prev_char p consumed = (if consumed = [] then p else Some (last consumed))"

text \<open>
  A standalone occurrence of a lower-case word at offset \<open>i\<close> of a text: the characters
  from \<open>i\<close> on spell the word in any mix of cases, and no word character stands next to
  the occurrence on either side.
\<close>

definition standalone_word_at :: "string \<Rightarrow> string \<Rightarrow> nat \<Rightarrow> bool" where
  "standalone_word_at w text i =
     (i + length w \<le> length text \<and> map to_lower (take (length w) (drop i text)) = w \<and>
      (i = 0 \<or> \<not> is_word (text ! (i - 1))) \<and>
      (i + length w = length text \<or> \<not> is_word (text ! (i + length w))))"

definition section_words :: "string list" where
  "section_words = [''references'', ''acknowledgements'', ''appendix'']"

definition section_token_at :: "string \<Rightarrow> nat \<Rightarrow> bool" where
  "section_token_at text i = (\<exists>w \<in> set section_words. standalone_word_at w text i)"

text \<open>
  A list has a run of \<open>n\<close> elements of a class when \<open>n\<close> consecutive elements of it are all
  in the class: a text with \<open>n\<close> consecutive newlines, a list of lines with \<open>n\<close> consecutive
  blank lines.
\<close>

fun has_run :: "('a \<Rightarrow> bool) \<Rightarrow> nat \<Rightarrow> 'a list \<Rightarrow> bool" where
  "has_run P n [] = (n = 0)"
| "has_run P n (c # cs) = (n \<le> length (takeWhile P (c # cs)) \<or> has_run P n cs)"


text \<open>
  The number of newlines in the white space that a text starts with, and the texts in
  which some stretch of white space holds \<open>n\<close> newlines.
\<close>

definition newlines_ahead :: "string \<Rightarrow> nat" where
  "newlines_ahead s = length (filter (\<lambda>c. c = newline) (takeWhile is_space s))"

fun wide_gap :: "nat \<Rightarrow> string \<Rightarrow> bool" where
  "wide_gap n [] = (n = 0)"
| "wide_gap n (c # cs) = (n \<le> newlines_ahead (c # cs) \<or> wide_gap n cs)"

section \<open>Properties\<close>

subsection \<open>Classification of a document\<close>

lemma strip_empty_iff: "strip s = [] \<longleftrightarrow> (\<forall>c \<in> set s. is_space c)"
proof -
  have "strip s = [] \<longleftrightarrow> dropWhile is_space (rev (dropWhile is_space s)) = []"
    by (simp add: strip_def)
  also have "\<dots> \<longleftrightarrow> (\<forall>c \<in> set (dropWhile is_space s). is_space c)"
    by (simp add: dropWhile_eq_Nil_conv)
  also have "\<dots> \<longleftrightarrow> (\<forall>c \<in> set s. is_space c)"
  proof
    assume h: "\<forall>c \<in> set (dropWhile is_space s). is_space c"
    show "\<forall>c \<in> set s. is_space c"
    proof (cases "dropWhile is_space s")
      case Nil
      then show ?thesis by (simp add: dropWhile_eq_Nil_conv)
    next
      case (Cons x xs)
      then have "\<not> is_space x" using hd_dropWhile[of is_space s] by simp
      moreover have "is_space x" using h Cons by simp
      ultimately show ?thesis by simp
    qed
  next
    assume "\<forall>c \<in> set s. is_space c"
    then show "\<forall>c \<in> set (dropWhile is_space s). is_space c"
      using set_dropWhileD by fastforce
  qed
  finally show ?thesis .
qed

lemma image_loop_iff: "image_loop doc is \<longleftrightarrow> (\<forall>i \<in> set is. strip (doc ! i) = [])"
  by (induction "is") auto

text \<open>
  C7: \<open>is_image_based_pdf\<close> with \<open>check_pages = K\<close> looks at the first \<open>K\<close> pages, or at all
  of them when the document has fewer, and returns true exactly when the text of each of
  these pages is empty or consists of white space only.
\<close>

theorem is_image_based_pdf_iff:
  "page_texts pdf_path = Some doc \<Longrightarrow>
   is_image_based_pdf pdf_path check_pages =
     Inr (\<forall>i < nat (min (int (length doc)) check_pages). \<forall>c \<in> set (doc ! i). is_space c)"
  by (auto simp add: is_image_based_pdf_def image_loop_iff strip_empty_iff)

theorem is_image_based_pdf_iff_witness:
  "page_texts \<lparr>page_texts = Some ['' '', ''a''], ocr_texts = None\<rparr> = Some ['' '', ''a''] \<and>
   is_image_based_pdf \<lparr>page_texts = Some ['' '', ''a''], ocr_texts = None\<rparr> 1 = Inr True \<and>
   is_image_based_pdf \<lparr>page_texts = Some ['' '', ''a''], ocr_texts = None\<rparr> 2 = Inr False"
proof -
  let ?d = "\<lparr>page_texts = Some ['' '', ''a''], ocr_texts = None\<rparr>"
  have h: "page_texts ?d = Some ['' '', ''a'']" by simp
  have sp: "is_space CHR '' ''" by (simp add: is_space_def codepoint_def)
  have a: "\<not> is_space CHR ''a''" by (simp add: is_space_def codepoint_def)
  have one: "is_image_based_pdf ?d 1 = Inr True"
    using is_image_based_pdf_iff [OF h, of 1] sp by simp
  have two: "is_image_based_pdf ?d 2 = Inr False"
  proof -
    have "\<not> (\<forall>i < nat (min (int (length ['' '', ''a''])) 2). \<forall>c \<in> set (['' '', ''a''] ! i). is_space c)"
      using a by (auto intro: exI[of _ 1])
    then show ?thesis using is_image_based_pdf_iff [OF h, of 2] by simp
  qed
  show ?thesis using h one two by simp
qed

subsection \<open>The batch\<close>

lemma main_loop_append_ok:
  "main_loop before fs = (fs1, None) \<Longrightarrow> main_loop (before @ rest) fs = main_loop rest fs1"
  by (induction before arbitrary: fs) (auto split: sum.splits)

lemma main_loop_append_failed:
  "main_loop before fs = (fs1, Some e) \<Longrightarrow> main_loop (before @ rest) fs = (fs1, Some e)"
  by (induction before arbitrary: fs) (auto split: sum.splits)

text \<open>
  C2, as amended: a failure while processing one document is not isolated. When the body of
  the loop raises for an entry, the loop ends with that exception; the entries before it
  have been processed, and the entries after it are not: the files are those written for
  the entries before it, whatever follows.
\<close>

theorem main_loop_stops_at_failure:
  "main_loop before fs = (fs1, None) \<Longrightarrow> main_body entry fs1 = Inl e \<Longrightarrow>
   main_loop (before @ entry # after) fs = (fs1, Some e)"
  by (simp add: main_loop_append_ok)

theorem main_loop_stops_at_failure_witness:
  "main_loop [] Map.empty = (Map.empty, None) \<and>
   main_body (''a.pdf'', \<lparr>page_texts = None, ocr_texts = None\<rparr>) Map.empty = Inl DocumentUnreadable \<and>
   main_loop ([] @ (''a.pdf'', \<lparr>page_texts = None, ocr_texts = None\<rparr>) #
              [(''b.pdf'', \<lparr>page_texts = Some [''x''], ocr_texts = None\<rparr>)]) Map.empty
     = (Map.empty, Some DocumentUnreadable)"
proof -
  let ?bad = "(''a.pdf'', \<lparr>page_texts = None, ocr_texts = None\<rparr>)"
  have h1: "main_loop [] Map.empty = (Map.empty, None)" by simp
  have h2: "main_body ?bad Map.empty = Inl DocumentUnreadable"
    by (simp add: main_body_def endswith_def is_image_based_pdf_def)
  show ?thesis using h1 h2 main_loop_stops_at_failure [OF h1 h2] by simp
qed

text \<open>
  The claim as stated fails: with an unreadable first document the second one, which the
  loop processes when it is alone, is never written.
\<close>

theorem main_loop_not_isolated:
  "snd (main_loop [(''a.pdf'', \<lparr>page_texts = None, ocr_texts = None\<rparr>),
                   (''b.pdf'', \<lparr>page_texts = Some [''x''], ocr_texts = None\<rparr>)] Map.empty)
     = Some DocumentUnreadable \<and>
   fst (main_loop [(''a.pdf'', \<lparr>page_texts = None, ocr_texts = None\<rparr>),
                   (''b.pdf'', \<lparr>page_texts = Some [''x''], ocr_texts = None\<rparr>)] Map.empty)
     ''cleaned_texts/b_cleaned.txt'' = None \<and>
   fst (main_loop [(''b.pdf'', \<lparr>page_texts = Some [''x''], ocr_texts = None\<rparr>)] Map.empty)
     ''cleaned_texts/b_cleaned.txt'' = Some []"
  by code_simp

subsection \<open>The raw text\<close>










subsection \<open>The numeric blocks\<close>

lemma digit_ratio_defined:
  "digit_ratio line =
     Inr (of_nat (length (re_findall numeric_char_re line)) / (of_nat (length line) + 1 / 1000000))"
proof -
  have "(of_nat (length line) :: rat) \<ge> 0" by simp
  then have "(of_nat (length line) :: rat) + 1 / 1000000 \<noteq> 0" by linarith
  then show ?thesis by (simp add: digit_ratio_def py_div_def)
qed

lemma numeric_loop_eq:
  "numeric_loop lines numeric_run cleaned =
     Inr (cleaned @ filter (\<lambda>line. \<not> numeric_like line) lines)"
proof (induction lines arbitrary: numeric_run cleaned)
  case Nil
  then show ?case by simp
next
  case (Cons line lines)
  show ?case
    by (simp add: Cons.IH numeric_like_def digit_ratio_defined Let_def)
qed

lemma remove_numeric_blocks_eq:
  "remove_numeric_blocks text =
     Inr (join [newline] (filter (\<lambda>line. \<not> numeric_like line) (split_on newline text)))"
  by (simp add: remove_numeric_blocks_def numeric_loop_eq)

text \<open>
  C1: the code drops a run of two numeric lines. The lines \<open>1.5 2.5\<close> and \<open>3.5 4.5%\<close>
  between the lines \<open>a\<close> and \<open>b\<close> form a run of exactly two; the result holds \<open>a\<close> and
  \<open>b\<close> only.
\<close>

theorem remove_numeric_blocks_drops_short_run:
  "remove_numeric_blocks (''a'' @ [newline] @ ''1.5 2.5'' @ [newline] @ ''3.5 4.5%'' @ [newline] @ ''b'')
     = Inr (''a'' @ [newline] @ ''b'')"
  by code_simp

subsection \<open>Totality\<close>

lemma noise_filters_total: "\<exists>out. noise_filters text = Inr out"
  by (simp add: noise_filters_def remove_numeric_blocks_eq)

text \<open>
  C10: \<open>clean_text\<close> and \<open>remove_numeric_blocks\<close> return a string for every text and raise
  nothing; the division that computes the digit ratio is defined for every line, the
  empty one too, since its divisor is the length plus a positive constant.
\<close>

theorem cleaning_total:
  "(\<exists>out. clean_text text = Inr out) \<and> (\<exists>out. remove_numeric_blocks text = Inr out) \<and>
   (\<exists>ratio. digit_ratio line = Inr ratio) \<and> digit_ratio [] = Inr 0"
proof -
  have "re_findall numeric_char_re [] = []"
    by code_simp
  then have "digit_ratio [] = Inr 0"
    by (simp add: digit_ratio_defined)
  then show ?thesis
    using noise_filters_total by (simp add: clean_text_def remove_numeric_blocks_eq digit_ratio_defined)
qed

subsection \<open>The start of the main text\<close>

text \<open>
  C3, as amended: when neither pattern matches, \<open>find_main_start\<close> returns the text from
  offset 1000 on; for a text of at most 1000 characters this is the empty string, and
  nothing is raised.
\<close>

theorem find_main_start_fallback:
  "re_search abstract_re text = None \<Longrightarrow> re_search introduction_re text = None \<Longrightarrow>
   find_main_start text = drop 1000 text \<and> (length text \<le> 1000 \<longrightarrow> find_main_start text = [])"
  by (simp add: find_main_start_def)

theorem find_main_start_fallback_witness:
  "re_search abstract_re ''hello'' = None \<and> re_search introduction_re ''hello'' = None \<and>
   length ''hello'' \<le> 1000 \<and> find_main_start ''hello'' = []"
proof -
  have a: "re_search abstract_re ''hello'' = None" by code_simp
  have i: "re_search introduction_re ''hello'' = None" by code_simp
  show ?thesis using a i find_main_start_fallback [OF a i] by simp
qed

text \<open>
  The claim as stated fails: a short text without the two words is not returned whole.
\<close>

theorem find_main_start_short_text:
  "re_search abstract_re ''hello'' = None \<and> re_search introduction_re ''hello'' = None \<and>
   length ''hello'' < 1000 \<and> find_main_start ''hello'' \<noteq> ''hello''"
  by code_simp

subsection \<open>Substitution where the pattern matches nowhere\<close>





subsection \<open>Citations\<close>




subsection \<open>Cursors and the scan\<close>

lemma prev_char_Nil [simp]: "prev_char p [] = p"
  by (simp add: prev_char_def)

lemma prev_char_Cons [simp]: "prev_char p (c # cs) = prev_char (Some c) cs"
  by (simp add: prev_char_def)

lemma prev_char_append [simp]: "prev_char p (xs @ ys) = prev_char (prev_char p xs) ys"
  by (induction xs arbitrary: p) simp_all

lemma scan_skip:
  "(\<And>a b. pre = a @ b \<Longrightarrow> b \<noteq> [] \<Longrightarrow> ends r (prev_char p a, b @ suf) = []) \<Longrightarrow>
   scan r adv p (pre @ suf) = map Keep pre @ scan r (adv \<and> pre = []) (prev_char p pre) suf"
proof (induction pre arbitrary: p adv)
  case Nil
  then show ?case by simp
next
  case (Cons c cs)
  have here: "ends r (p, c # cs @ suf) = []"
    using Cons.prems [of "[]" "c # cs"] by simp
  have "\<And>a b. cs = a @ b \<Longrightarrow> b \<noteq> [] \<Longrightarrow> ends r (prev_char (Some c) a, b @ suf) = []"
    using Cons.prems [of "c # _"] by simp
  then have "scan r False (Some c) (cs @ suf) =
      map Keep cs @ scan r (False \<and> cs = []) (prev_char (Some c) cs) suf"
    by (rule Cons.IH)
  with here show ?case by (simp add: scan.simps [of r adv p "c # cs @ suf"])
qed

lemma sub_tokens_Keep [simp]:
  "concat (map ((\<lambda>t. case t of Keep c \<Rightarrow> [c] | Hit m \<Rightarrow> repl) \<circ> Keep) xs) = xs"
  by (induction xs) simp_all

lemma concat_map_ends_Eps [simp]: "concat (map (ends Eps) xs) = xs"
  by (induction xs) simp_all

subsection \<open>Literals\<close>

lemma lit_i_Nil [simp]: "lit_i [] = Eps"
  by (simp add: lit_i_def seq_def)

lemma lit_i_Cons [simp]: "lit_i (c # w) = Cat (chr_i c) (lit_i w)"
  by (simp add: lit_i_def seq_def)

lemma ends_lit_i:
  "ends (lit_i w) (p, rest) =
     (if length w \<le> length rest \<and> map to_lower (take (length w) rest) = map to_lower w
      then [(prev_char p (take (length w) rest), drop (length w) rest)] else [])"
proof (induction w arbitrary: p rest)
  case Nil
  then show ?case by simp
next
  case (Cons c w)
  show ?case
  proof (cases rest)
    case Nil
    then show ?thesis by (simp add: chr_i_def)
  next
    case (Cons x xs)
    then show ?thesis by (simp add: chr_i_def Cons.IH)
  qed
qed

lemma is_word_to_lower: "is_lower (to_lower c) \<Longrightarrow> is_word c"
  by (auto simp: to_lower_def is_word_def Let_def split: if_splits)

subsection \<open>The pattern of the trailing sections\<close>

lemma ends_star_dot_all: "\<exists>q es. ends (Star dot_all) (p, rest) = (q, []) # es"
proof (induction rest arbitrary: p)
  case Nil
  then show ?case by (simp add: dot_all_def ends.simps(5))
next
  case (Cons c cs)
  from Cons [of "Some c"] obtain q es where "ends (Star dot_all) (Some c, cs) = (q, []) # es"
    by blast
  then show ?case by (simp add: dot_all_def ends.simps(5) [of _ "(p, c # cs)"])
qed

lemma ends_word_tail:
  assumes w: "w \<noteq> []" "is_lower (last w)" "map to_lower w = w"
  shows "ends (Cat (lit_i w) (seq [WordB, Star dot_all])) (p, rest) \<noteq> [] \<longleftrightarrow>
           length w \<le> length rest \<and> map to_lower (take (length w) rest) = w \<and>
           \<not> word_after (drop (length w) rest)"
    and "ends (Cat (lit_i w) (seq [WordB, Star dot_all])) (p, rest) = [] \<or>
         snd (hd (ends (Cat (lit_i w) (seq [WordB, Star dot_all])) (p, rest))) = []"
proof -
  let ?m = "length w \<le> length rest \<and> map to_lower (take (length w) rest) = w"
  let ?q = "prev_char p (take (length w) rest)"
  have before: "word_before ?q" if m: ?m
  proof -
    from m w have ne: "take (length w) rest \<noteq> []" by auto
    then have "?q = Some (last (take (length w) rest))" by (simp add: prev_char_def)
    moreover have "to_lower (last (take (length w) rest)) = last w"
      using m ne by (metis last_map)
    then have "is_word (last (take (length w) rest))"
      using w(2) by (simp add: is_word_to_lower)
    ultimately show ?thesis by (simp add: word_before_def)
  qed
  obtain q es where star: "ends (Star dot_all) (?q, drop (length w) rest) = (q, []) # es"
    using ends_star_dot_all by blast
  have eq: "ends (Cat (lit_i w) (seq [WordB, Star dot_all])) (p, rest) =
      (if ?m \<and> \<not> word_after (drop (length w) rest)
       then ends (Star dot_all) (?q, drop (length w) rest) else [])"
    using before by (auto simp: ends_lit_i w(3) seq_def)
  show "ends (Cat (lit_i w) (seq [WordB, Star dot_all])) (p, rest) \<noteq> [] \<longleftrightarrow>
           length w \<le> length rest \<and> map to_lower (take (length w) rest) = w \<and>
           \<not> word_after (drop (length w) rest)"
    using eq star by auto
  show "ends (Cat (lit_i w) (seq [WordB, Star dot_all])) (p, rest) = [] \<or>
         snd (hd (ends (Cat (lit_i w) (seq [WordB, Star dot_all])) (p, rest))) = []"
    using eq star by auto
qed


lemma section_words_facts:
  "w \<in> set section_words \<Longrightarrow> w \<noteq> [] \<and> is_lower (hd w) \<and> is_lower (last w) \<and> map to_lower w = w"
  by (auto simp: section_words_def is_lower_def is_upper_def to_lower_def codepoint_def)

lemma hd_append_end:
  "xs = [] \<or> snd (hd xs) = [] \<Longrightarrow> ys = [] \<or> snd (hd ys) = [] \<Longrightarrow>
   xs @ ys = [] \<or> snd (hd (xs @ ys)) = ([] :: string)"
  by (cases xs) auto

lemma ends_trailing_re:
  "ends trailing_re (p, rest) =
     (if word_before p \<noteq> word_after rest
      then ends (Cat (lit_i ''references'') (seq [WordB, Star dot_all])) (p, rest) @
           ends (Cat (lit_i ''acknowledgements'') (seq [WordB, Star dot_all])) (p, rest) @
           ends (Cat (lit_i ''appendix'') (seq [WordB, Star dot_all])) (p, rest)
      else [])"
  by (simp add: trailing_re_def seq_def alts_def del: lit_i_Cons)

lemma ends_trailing_re_iff:
  "ends trailing_re (p, rest) \<noteq> [] \<longleftrightarrow>
     word_before p \<noteq> word_after rest \<and>
     (\<exists>w \<in> set section_words.
        length w \<le> length rest \<and> map to_lower (take (length w) rest) = w \<and>
        \<not> word_after (drop (length w) rest))"
proof -
  have w: "w \<noteq> []" "is_lower (last w)" "map to_lower w = w" if "w \<in> set section_words" for w
    using section_words_facts [OF that] by simp_all
  have r: "''references'' \<in> set section_words" and a: "''acknowledgements'' \<in> set section_words"
    and x: "''appendix'' \<in> set section_words"
    by (simp_all add: section_words_def)
  note tails = ends_word_tail(1) [OF w [OF r], of p rest] ends_word_tail(1) [OF w [OF a], of p rest]
    ends_word_tail(1) [OF w [OF x], of p rest]
  have "ends trailing_re (p, rest) \<noteq> [] \<longleftrightarrow>
      word_before p \<noteq> word_after rest \<and>
      (ends (Cat (lit_i ''references'') (seq [WordB, Star dot_all])) (p, rest) \<noteq> [] \<or>
       ends (Cat (lit_i ''acknowledgements'') (seq [WordB, Star dot_all])) (p, rest) \<noteq> [] \<or>
       ends (Cat (lit_i ''appendix'') (seq [WordB, Star dot_all])) (p, rest) \<noteq> [])"
    by (simp only: ends_trailing_re append_is_Nil_conv split: if_split) blast
  also have "\<dots> \<longleftrightarrow> word_before p \<noteq> word_after rest \<and>
     (\<exists>w \<in> set section_words.
        length w \<le> length rest \<and> map to_lower (take (length w) rest) = w \<and>
        \<not> word_after (drop (length w) rest))"
    unfolding tails by (simp only: section_words_def list.set bex_simps ball_simps) blast
  finally show ?thesis .
qed

lemma ends_trailing_re_hd:
  "ends trailing_re (p, rest) = [] \<or> snd (hd (ends trailing_re (p, rest))) = []"
proof -
  have w: "w \<noteq> []" "is_lower (last w)" "map to_lower w = w" if "w \<in> set section_words" for w
    using section_words_facts [OF that] by simp_all
  have r: "''references'' \<in> set section_words" and a: "''acknowledgements'' \<in> set section_words"
    and x: "''appendix'' \<in> set section_words"
    by (simp_all add: section_words_def)
  note tails = ends_word_tail(2) [OF w [OF r], of p rest] ends_word_tail(2) [OF w [OF a], of p rest]
    ends_word_tail(2) [OF w [OF x], of p rest]
  show ?thesis
    unfolding ends_trailing_re
    using hd_append_end [OF tails(1) hd_append_end [OF tails(2) tails(3)]]
    by (simp only: split: if_split) blast
qed

lemma word_before_prev_char:
  "word_before (prev_char None a) \<longleftrightarrow> a \<noteq> [] \<and> is_word (last a)"
  by (simp add: prev_char_def word_before_def)

lemma cursor_section_token:
  "ends trailing_re (prev_char None a, b) \<noteq> [] \<longleftrightarrow> section_token_at (a @ b) (length a)"
proof -
  have "(word_before (prev_char None a) \<noteq> word_after b \<and>
         length w \<le> length b \<and> map to_lower (take (length w) b) = w \<and>
         \<not> word_after (drop (length w) b)) \<longleftrightarrow> standalone_word_at w (a @ b) (length a)"
    if w: "w \<in> set section_words" for w
  proof (cases "length w \<le> length b \<and> map to_lower (take (length w) b) = w")
    case False
    then show ?thesis by (auto simp: standalone_word_at_def)
  next
    case True
    from section_words_facts [OF w] have ne: "w \<noteq> []" and lo: "is_lower (hd w)" by simp_all
    from True ne have b: "b \<noteq> []" by auto
    have "to_lower (hd b) = hd w"
    proof -
      obtain x xs where bx: "b = x # xs" using b by (cases b) auto
      obtain y ys where wy: "w = y # ys" using ne by (cases w) auto
      from True show ?thesis unfolding bx wy by simp
    qed
    then have "is_word (hd b)" using lo by (simp add: is_word_to_lower)
    then have after: "word_after b" using b by (cases b) (simp_all add: word_after_def)
    have start: "\<not> word_before (prev_char None a) \<longleftrightarrow>
        (length a = 0 \<or> \<not> is_word ((a @ b) ! (length a - 1)))"
    proof (cases "a = []")
      case True
      then show ?thesis by (simp add: word_before_def)
    next
      case False
      then show ?thesis by (simp add: word_before_prev_char nth_append last_conv_nth)
    qed
    have stop: "\<not> word_after (drop (length w) b) \<longleftrightarrow>
        (length a + length w = length (a @ b) \<or> \<not> is_word ((a @ b) ! (length a + length w)))"
    proof (cases "length w = length b")
      case True
      then show ?thesis by (simp add: word_after_def)
    next
      case False
      with \<open>length w \<le> length b \<and> _\<close> have lt: "length w < length b" by simp
      then have "drop (length w) b = b ! length w # drop (Suc (length w)) b"
        by (simp add: Cons_nth_drop_Suc)
      then show ?thesis using lt by (simp add: word_after_def nth_append)
    qed
    show ?thesis using True after start stop by (auto simp: standalone_word_at_def)
  qed
  then show ?thesis
    unfolding ends_trailing_re_iff section_token_at_def by blast
qed

lemma scan_trailing_re_end: "scan trailing_re adv p [] = []"
proof -
  have "ends trailing_re (p, []) = []"
    using ends_trailing_re_iff [of p "[]"] section_words_facts by fastforce
  then show ?thesis by (simp add: scan.simps)
qed

lemma section_token_at_bound:
  assumes "section_token_at text i"
  shows "i < length text"
proof -
  from assms obtain w where w: "w \<in> set section_words" and at: "standalone_word_at w text i"
    by (auto simp: section_token_at_def)
  from section_words_facts [OF w] have "0 < length w" by simp
  moreover from at have "i + length w \<le> length text" by (simp add: standalone_word_at_def)
  ultimately show ?thesis by linarith
qed

lemma truncate_no_token:
  assumes "\<forall>i. \<not> section_token_at text i"
  shows "truncate_trailing_sections text = text"
proof -
  have "ends trailing_re (prev_char None a, b @ []) = []" if "text = a @ b" for a b
    using cursor_section_token [of a b] assms that by simp
  then have "scan trailing_re False None (text @ []) =
      map Keep text @ scan trailing_re (False \<and> text = []) (prev_char None text) []"
    by (intro scan_skip) simp
  then show ?thesis
    by (simp add: truncate_trailing_sections_def re_sub_def sub_from_def scan_trailing_re_end)
qed

lemma truncate_first_token:
  assumes tok: "section_token_at text i" and first: "\<forall>j < i. \<not> section_token_at text j"
  shows "truncate_trailing_sections text = take i text"
proof -
  let ?pre = "take i text" and ?suf = "drop i text"
  from section_token_at_bound [OF tok] have i: "i < length text" .
  then have suf: "?suf \<noteq> []" and len: "length ?pre = i" by simp_all
  have "ends trailing_re (prev_char None a, b @ ?suf) = []" if "?pre = a @ b" "b \<noteq> []" for a b
  proof -
    from that have "length a < i" using len by (metis length_append length_greater_0_conv less_add_same_cancel1)
    moreover have "text = a @ (b @ ?suf)" using that(1) by (metis append_assoc append_take_drop_id)
    ultimately show ?thesis using cursor_section_token [of a "b @ ?suf"] first by simp
  qed
  then have skip: "scan trailing_re False None (?pre @ ?suf) =
      map Keep ?pre @ scan trailing_re (False \<and> ?pre = []) (prev_char None ?pre) ?suf"
    by (intro scan_skip)
  have "ends trailing_re (prev_char None ?pre, ?suf) \<noteq> []"
    using cursor_section_token [of ?pre ?suf] tok len by simp
  then obtain e es where e: "ends trailing_re (prev_char None ?pre, ?suf) = e # es"
    by (cases "ends trailing_re (prev_char None ?pre, ?suf)") auto
  with ends_trailing_re_hd [of "prev_char None ?pre" ?suf] have "snd e = []" by simp
  then have "scan trailing_re False (prev_char None ?pre) ?suf = [Hit ?suf]"
    using e suf by (simp add: scan.simps [of _ _ _ ?suf] scan_trailing_re_end)
  with skip have "scan trailing_re False None text = map Keep ?pre @ [Hit ?suf]" by simp
  then show ?thesis
    by (simp add: truncate_trailing_sections_def re_sub_def sub_from_def)
qed

text \<open>
  C9: the cut of the trailing sections removes everything from the first standalone
  occurrence, in any mix of cases, of one of the words \<open>references\<close>,
  \<open>acknowledgements\<close> and \<open>appendix\<close> to the end of the text, the word included, and
  changes nothing without such an occurrence; \<open>clean_text\<close> applies it to what
  \<open>find_main_start\<close> has returned.
\<close>

theorem truncate_trailing_sections_first_token:
  "((\<forall>i. \<not> section_token_at text i) \<longrightarrow> truncate_trailing_sections text = text) \<and>
   (section_token_at text i \<and> (\<forall>j < i. \<not> section_token_at text j) \<longrightarrow>
      truncate_trailing_sections text = take i text) \<and>
   clean_text text = noise_filters (truncate_trailing_sections (find_main_start text))"
  using truncate_no_token truncate_first_token by (simp add: clean_text_def)

theorem truncate_trailing_sections_first_token_witness:
  "section_token_at ''body text References [1] Smith 2020'' 10 \<and>
   list_all (\<lambda>j. \<not> section_token_at ''body text References [1] Smith 2020'' j) [0 ..< 10] \<and>
   truncate_trailing_sections ''body text References [1] Smith 2020'' = ''body text '' \<and>
   (\<forall>i. \<not> section_token_at ''body'' i) \<and>
   truncate_trailing_sections ''body'' = ''body''"
proof -
  let ?t = "''body text References [1] Smith 2020''"
  have tok: "section_token_at ?t 10" by code_simp
  have none: "list_all (\<lambda>j. \<not> section_token_at ?t j) [0 ..< 10]" by code_simp
  then have first: "\<forall>j < 10. \<not> section_token_at ?t j" by (simp add: list_all_iff)
  have "truncate_trailing_sections ?t = take 10 ?t"
    using truncate_trailing_sections_first_token [of ?t 10] tok first by blast
  then have cut: "truncate_trailing_sections ?t = ''body text ''" by simp
  have short: "list_all (\<lambda>j. \<not> section_token_at ''body'' j) [0 ..< 4]" by code_simp
  have no: "\<forall>i. \<not> section_token_at ''body'' i"
  proof
    fix i
    show "\<not> section_token_at ''body'' i"
    proof (cases "i < 4")
      case True
      with short show ?thesis by (simp add: list_all_iff)
    next
      case False
      then show ?thesis using section_token_at_bound [of "''body''" i] by auto
    qed
  qed
  have same: "truncate_trailing_sections ''body'' = ''body''"
    using truncate_trailing_sections_first_token [of "''body''"] no by blast
  show ?thesis using tok none cut no same by blast
qed

subsection \<open>Runs of a character class\<close>

lemma ends_at_least_Nil_iff:
  "ends (at_least n (Cls P)) (p, rest) = [] \<longleftrightarrow> length (takeWhile P rest) < n"
proof (induction n arbitrary: p rest)
  case 0
  show ?case by (cases rest) (simp_all add: ends.simps(5))
next
  case (Suc n)
  show ?case by (cases rest) (simp_all add: Suc.IH)
qed

lemma ends_star_cls_hd:
  "hd (ends (Star (Cls P)) (p, rest)) = (prev_char p (takeWhile P rest), dropWhile P rest)"
proof (induction rest arbitrary: p)
  case Nil
  show ?case by (simp add: ends.simps(5))
next
  case (Cons c cs)
  show ?case
  proof (cases "P c")
    case True
    have "ends (Star (Cls P)) (Some c, cs) \<noteq> []" by (simp add: ends.simps(5) [of _ "(Some c, cs)"])
    then show ?thesis using True Cons [of "Some c"]
      by (simp add: ends.simps(5) [of _ "(p, c # cs)"])
  next
    case False
    then show ?thesis by (simp add: ends.simps(5) [of _ "(p, c # cs)"])
  qed
qed

lemma ends_at_least_hd:
  "n \<le> length (takeWhile P rest) \<Longrightarrow>
   hd (ends (at_least n (Cls P)) (p, rest)) = (prev_char p (takeWhile P rest), dropWhile P rest)"
proof (induction n arbitrary: p rest)
  case 0
  show ?case by (simp add: ends_star_cls_hd)
next
  case (Suc n)
  then obtain c cs where rest: "rest = c # cs" and c: "P c"
    by (cases rest) (auto split: if_splits)
  with Suc.prems have "n \<le> length (takeWhile P cs)" by simp
  from Suc.IH [OF this, of "Some c"] show ?case using rest c by simp
qed

lemma scan_at_least:
  assumes "0 < n"
  shows "scan (at_least n (Cls P)) False p rest =
     (if n \<le> length (takeWhile P rest)
      then Hit (takeWhile P rest) #
           scan (at_least n (Cls P)) False (prev_char p (takeWhile P rest)) (dropWhile P rest)
      else (case rest of [] \<Rightarrow> [] | c # cs \<Rightarrow> Keep c # scan (at_least n (Cls P)) False (Some c) cs))"
proof (cases "n \<le> length (takeWhile P rest)")
  case False
  then have "ends (at_least n (Cls P)) (p, rest) = []" by (simp add: ends_at_least_Nil_iff)
  with False show ?thesis by (simp add: scan.simps [of _ _ p rest])
next
  case True
  then have ne: "ends (at_least n (Cls P)) (p, rest) \<noteq> []" by (simp add: ends_at_least_Nil_iff)
  then obtain e es where e: "ends (at_least n (Cls P)) (p, rest) = e # es"
    by (cases "ends (at_least n (Cls P)) (p, rest)") auto
  with ends_at_least_hd [OF True, of p] have e_eq: "e = (prev_char p (takeWhile P rest), dropWhile P rest)"
    by simp
  from True assms have "takeWhile P rest \<noteq> []" by auto
  then have shorter: "length (dropWhile P rest) < length rest"
    by (metis append_self_conv2 length_append length_greater_0_conv less_add_same_cancel2
        takeWhile_dropWhile_id)
  have "length rest - length (dropWhile P rest) = length (takeWhile P rest)"
    by (metis add_diff_cancel_right' length_append takeWhile_dropWhile_id)
  then have "take (length rest - length (dropWhile P rest)) rest = takeWhile P rest"
    by (metis append_eq_conv_conj takeWhile_dropWhile_id)
  with True e e_eq shorter show ?thesis by (simp add: scan.simps [of _ _ p rest])
qed

lemma sub_from_at_least:
  assumes "0 < n"
  shows "sub_from (at_least n (Cls P)) repl p rest =
     (if n \<le> length (takeWhile P rest)
      then repl @ sub_from (at_least n (Cls P)) repl (prev_char p (takeWhile P rest)) (dropWhile P rest)
      else (case rest of [] \<Rightarrow> [] | c # cs \<Rightarrow> c # sub_from (at_least n (Cls P)) repl (Some c) cs))"
  unfolding sub_from_def
  by (subst scan_at_least [OF assms]) (simp split: list.splits)

lemma has_run_zero [simp]: "has_run P 0 s"
  by (cases s) simp_all

lemma has_run_prepend: "has_run P n ys \<Longrightarrow> has_run P n (xs @ ys)"
  by (induction xs) simp_all

lemma length_takeWhile_append: "length (takeWhile P xs) \<le> length (takeWhile P (xs @ ys))"
  by (induction xs) simp_all

lemma has_run_append: "has_run P n xs \<Longrightarrow> has_run P n (xs @ ys)"
proof (induction xs)
  case Nil
  then show ?case by simp
next
  case (Cons x xs)
  have "length (takeWhile P (x # xs)) \<le> length (takeWhile P ((x # xs) @ ys))"
    by (rule length_takeWhile_append)
  with Cons show ?case by (auto simp del: takeWhile.simps)
qed

lemma length_takeWhile_append_le:
  "length (takeWhile P (xs @ ys)) \<le> length xs + length (takeWhile P ys)"
  by (induction xs) simp_all

lemma has_run_short_prefix:
  "length xs < n \<Longrightarrow> takeWhile P ys = [] \<Longrightarrow> has_run P n (xs @ ys) \<Longrightarrow> has_run P n ys"
proof (induction xs)
  case Nil
  then show ?case by simp
next
  case (Cons x xs)
  have "length (takeWhile P ((x # xs) @ ys)) \<le> length (x # xs) + length (takeWhile P ys)"
    by (rule length_takeWhile_append_le)
  with Cons.prems have "\<not> n \<le> length (takeWhile P ((x # xs) @ ys))" by simp
  with Cons.prems have "has_run P n (xs @ ys)" by (simp del: takeWhile.simps)
  with Cons show ?case by simp
qed

text \<open>Replacing the runs of at least \<open>n\<close> by a shorter text leaves no run of \<open>n\<close>.\<close>

lemma sub_runs_bound:
  assumes n: "0 < n" and repl: "length repl < n"
  shows "\<not> has_run P n (sub_from (at_least n (Cls P)) repl p rest) \<and>
         (length (takeWhile P rest) < n \<longrightarrow>
            length (takeWhile P (sub_from (at_least n (Cls P)) repl p rest)) \<le> length (takeWhile P rest))"
proof (induction rest arbitrary: p rule: length_induct)
  case (1 rest)
  let ?S = "sub_from (at_least n (Cls P)) repl"
  show ?case
  proof (cases "n \<le> length (takeWhile P rest)")
    case True
    with n have "takeWhile P rest \<noteq> []" by auto
    then have "length (dropWhile P rest) < length rest"
      by (metis append_self_conv2 length_append length_greater_0_conv less_add_same_cancel2
          takeWhile_dropWhile_id)
    from 1 [rule_format, OF this] have
      ih: "\<not> has_run P n (?S q (dropWhile P rest))"
        "length (takeWhile P (dropWhile P rest)) < n \<longrightarrow>
         length (takeWhile P (?S q (dropWhile P rest))) \<le> length (takeWhile P (dropWhile P rest))" for q
      by blast+
    have zero: "takeWhile P (dropWhile P rest) = []"
      by (metis takeWhile_eq_Nil_iff hd_dropWhile list.collapse takeWhile.simps(1) takeWhile.simps(2))
    let ?q = "prev_char p (takeWhile P rest)"
    have lead: "takeWhile P (?S ?q (dropWhile P rest)) = []"
      using ih(2) [of ?q] zero n by simp
    have eq: "?S p rest = repl @ ?S ?q (dropWhile P rest)"
      using True by (subst sub_from_at_least [OF n]) simp
    have "\<not> has_run P n (repl @ ?S ?q (dropWhile P rest))"
      using has_run_short_prefix [OF repl lead] ih(1) by blast
    with eq True show ?thesis by simp
  next
    case False
    show ?thesis
    proof (cases rest)
      case Nil
      then show ?thesis using n by (subst sub_from_at_least [OF n], subst sub_from_at_least [OF n]) simp
    next
      case (Cons c cs)
      have ih: "\<not> has_run P n (?S (Some c) cs)"
        "length (takeWhile P cs) < n \<longrightarrow>
         length (takeWhile P (?S (Some c) cs)) \<le> length (takeWhile P cs)"
        using 1 [rule_format, of cs "Some c"] Cons by simp_all
      have eq: "?S p (c # cs) = c # ?S (Some c) cs"
        using False Cons by (subst sub_from_at_least [OF n]) simp
      show ?thesis
      proof (cases "P c")
        case True
        with False Cons have "Suc (length (takeWhile P cs)) < n" by simp
        with ih True show ?thesis unfolding Cons eq by simp
      next
        case False
        with ih n show ?thesis unfolding Cons eq by simp
      qed
    qed
  qed
qed

text \<open>The substitution changes nothing in a text without such a run.\<close>

lemma sub_runs_id:
  assumes n: "0 < n"
  shows "\<not> has_run P n rest \<Longrightarrow> sub_from (at_least n (Cls P)) repl p rest = rest"
proof (induction rest arbitrary: p)
  case Nil
  then show ?case by (subst sub_from_at_least [OF n]) simp
next
  case (Cons c cs)
  then show ?case by (subst sub_from_at_least [OF n]) (simp del: takeWhile.simps)
qed

lemma has_run_skip_prefix:
  "0 < m \<Longrightarrow> \<forall>c \<in> set xs. \<not> Q c \<Longrightarrow> has_run Q m (xs @ ys) \<Longrightarrow> has_run Q m ys"
  by (induction xs) simp_all

text \<open>Replacing runs of one class by a text of other characters lengthens no run of a
  class disjoint from it.\<close>

lemma sub_runs_other_class:
  assumes n: "0 < n" and m: "0 < m" and repl: "repl \<noteq> []" "\<forall>c \<in> set repl. \<not> Q c"
    and disj: "\<And>c. P c \<Longrightarrow> \<not> Q c"
  shows "length (takeWhile Q (sub_from (at_least n (Cls P)) repl p rest)) \<le> length (takeWhile Q rest) \<and>
         (has_run Q m (sub_from (at_least n (Cls P)) repl p rest) \<longrightarrow> has_run Q m rest)"
proof (induction rest arbitrary: p rule: length_induct)
  case (1 rest)
  let ?S = "sub_from (at_least n (Cls P)) repl"
  show ?case
  proof (cases "n \<le> length (takeWhile P rest)")
    case True
    with n have ne: "takeWhile P rest \<noteq> []" by auto
    then have "length (dropWhile P rest) < length rest"
      by (metis append_self_conv2 length_append length_greater_0_conv less_add_same_cancel2
          takeWhile_dropWhile_id)
    from 1 [rule_format, OF this] have
      ih: "has_run Q m (?S q (dropWhile P rest)) \<longrightarrow> has_run Q m (dropWhile P rest)" for q
      by blast
    let ?q = "prev_char p (takeWhile P rest)"
    have eq: "?S p rest = repl @ ?S ?q (dropWhile P rest)"
      using True by (subst sub_from_at_least [OF n]) simp
    obtain r rs where r: "repl = r # rs" using repl(1) by (cases repl) auto
    with repl(2) have "\<not> Q r" by simp
    then have "takeWhile Q (repl @ ?S ?q (dropWhile P rest)) = []" by (simp add: r)
    then have lead: "takeWhile Q (?S p rest) = []" by (simp only: eq)
    have run: "has_run Q m rest" if "has_run Q m (?S p rest)"
    proof -
      from that have "has_run Q m (?S ?q (dropWhile P rest))"
        unfolding eq using has_run_skip_prefix [OF m repl(2)] by blast
      with ih have "has_run Q m (dropWhile P rest)" by blast
      then have "has_run Q m (takeWhile P rest @ dropWhile P rest)" by (rule has_run_prepend)
      then show ?thesis by simp
    qed
    from lead run show ?thesis by simp
  next
    case False
    show ?thesis
    proof (cases rest)
      case Nil
      then show ?thesis using n m by (subst sub_from_at_least [OF n], subst sub_from_at_least [OF n]) simp
    next
      case (Cons c cs)
      have ih: "length (takeWhile Q (?S (Some c) cs)) \<le> length (takeWhile Q cs)"
        "has_run Q m (?S (Some c) cs) \<longrightarrow> has_run Q m cs"
        using 1 [rule_format, of cs "Some c"] Cons by simp_all
      have eq: "?S p (c # cs) = c # ?S (Some c) cs"
        using False Cons by (subst sub_from_at_least [OF n]) simp
      from ih show ?thesis unfolding Cons eq by auto
    qed
  qed
qed

subsection \<open>\<open>strip\<close>\<close>

lemma strip_sublist: "\<exists>a b. s = a @ strip s @ b"
proof -
  let ?y = "dropWhile is_space s"
  have "s = takeWhile is_space s @ ?y" by simp
  moreover have "rev ?y = takeWhile is_space (rev ?y) @ dropWhile is_space (rev ?y)" by simp
  then have "?y = rev (dropWhile is_space (rev ?y)) @ rev (takeWhile is_space (rev ?y))"
    by (metis rev_append rev_rev_ident)
  ultimately have "s = takeWhile is_space s @ strip s @ rev (takeWhile is_space (rev ?y))"
    by (simp add: strip_def)
  then show ?thesis by blast
qed

lemma has_run_strip: "has_run P n (strip s) \<Longrightarrow> has_run P n s"
proof -
  assume h: "has_run P n (strip s)"
  obtain a b where s: "s = a @ strip s @ b" using strip_sublist by blast
  from h have "has_run P n (a @ strip s @ b)" by (intro has_run_prepend has_run_append)
  with s show ?thesis by simp
qed

lemma strip_edges:
  "\<not> (\<exists>c cs. strip s = c # cs \<and> is_space c)" "\<not> (\<exists>c cs. strip s = cs @ [c] \<and> is_space c)"
proof -
  let ?y = "dropWhile is_space s"
  let ?z = "dropWhile is_space (rev ?y)"
  have z: "strip s = rev ?z" by (simp add: strip_def)
  show "\<not> (\<exists>c cs. strip s = cs @ [c] \<and> is_space c)"
  proof
    assume "\<exists>c cs. strip s = cs @ [c] \<and> is_space c"
    then obtain c cs where "rev ?z = cs @ [c]" "is_space c" using z by auto
    then have "?z = c # rev cs" by (metis rev.simps(2) rev_rev_ident rev_swap)
    then have "\<not> is_space c" by (metis hd_dropWhile list.sel(1) list.simps(3))
    with \<open>is_space c\<close> show False by simp
  qed
  show "\<not> (\<exists>c cs. strip s = c # cs \<and> is_space c)"
  proof
    assume "\<exists>c cs. strip s = c # cs \<and> is_space c"
    then obtain c cs where c: "rev ?z = c # cs" "is_space c" using z by auto
    then have zne: "?z \<noteq> []" by auto
    have "\<exists>u. rev ?y = u @ ?z" by (metis takeWhile_dropWhile_id)
    then obtain u where "rev ?y = u @ ?z" by blast
    then have "?y = rev ?z @ rev u" by (metis rev_append rev_rev_ident)
    with c have "?y = c # cs @ rev u" by simp
    then have "\<not> is_space c" by (metis hd_dropWhile list.sel(1) list.simps(3))
    with c show False by simp
  qed
qed

lemma strip_id:
  assumes "\<not> (\<exists>c cs. s = c # cs \<and> is_space c)" "\<not> (\<exists>c cs. s = cs @ [c] \<and> is_space c)"
  shows "strip s = s"
proof -
  have 1: "dropWhile is_space s = s" using assms(1) by (cases s) auto
  have "\<not> (\<exists>c cs. rev s = c # cs \<and> is_space c)"
    using assms(2) by (metis rev.simps(2) rev_rev_ident rev_swap)
  then have 2: "dropWhile is_space (rev s) = rev s" by (cases "rev s") auto
  show ?thesis by (simp add: strip_def 1 2)
qed

lemma strip_strip: "strip (strip s) = strip s"
  by (rule strip_id) (rule strip_edges)+

subsection \<open>The normalization of white space\<close>

lemma normalize_whitespace_runs:
  "\<not> has_run (\<lambda>c. c = newline) 3 (normalize_whitespace text)"
  "\<not> has_run is_blank 2 (normalize_whitespace text)"
proof -
  let ?t1 = "re_sub blank_run_re [newline, newline] text"
  let ?t2 = "re_sub space_run_re '' '' ?t1"
  have t1: "\<not> has_run (\<lambda>c. c = newline) 3 ?t1"
    using sub_runs_bound [of 3 "[newline, newline]" "\<lambda>c. c = newline" None "text"]
    by (simp add: re_sub_def blank_run_re_def chr_def)
  have disj: "\<not> (c = newline)" if "is_blank c" for c
    using that by (auto simp: is_blank_def newline_def tab_def)
  have "has_run (\<lambda>c. c = newline) 3 (sub_from (at_least 2 (Cls is_blank)) '' '' None ?t1) \<longrightarrow>
      has_run (\<lambda>c. c = newline) 3 ?t1"
    using sub_runs_other_class [where n = 2 and m = 3 and repl = "'' ''" and Q = "\<lambda>c. c = newline"
        and P = is_blank and p = None and rest = ?t1, OF _ _ _ _ disj]
    by (simp add: newline_def)
  then have "has_run (\<lambda>c. c = newline) 3 ?t2 \<longrightarrow> has_run (\<lambda>c. c = newline) 3 ?t1"
    by (simp add: re_sub_def space_run_re_def)
  with t1 have nl: "\<not> has_run (\<lambda>c. c = newline) 3 ?t2" by blast
  have sp: "\<not> has_run is_blank 2 ?t2"
    using sub_runs_bound [of 2 "'' ''" is_blank None ?t1]
    by (simp add: re_sub_def space_run_re_def)
  show "\<not> has_run (\<lambda>c. c = newline) 3 (normalize_whitespace text)"
    using nl has_run_strip unfolding normalize_whitespace_def by blast
  show "\<not> has_run is_blank 2 (normalize_whitespace text)"
    using sp has_run_strip unfolding normalize_whitespace_def by blast
qed

subsection \<open>Idempotence\<close>

text \<open>
  C6, as amended: the sequence of the noise filters is not idempotent. What holds is the
  idempotence of its last stage: normalizing the white space of a text twice gives the
  same as normalizing it once.
\<close>

theorem normalize_whitespace_idem:
  "normalize_whitespace (normalize_whitespace text) = normalize_whitespace text"
proof -
  let ?u = "normalize_whitespace text"
  have 1: "re_sub blank_run_re [newline, newline] ?u = ?u"
    using sub_runs_id [of 3 "\<lambda>c. c = newline" ?u] normalize_whitespace_runs(1)
    by (simp add: re_sub_def blank_run_re_def chr_def)
  have 2: "re_sub space_run_re '' '' ?u = ?u"
    using sub_runs_id [of 2 is_blank ?u] normalize_whitespace_runs(2)
    by (simp add: re_sub_def space_run_re_def)
  have 3: "strip ?u = ?u" by (simp add: normalize_whitespace_def strip_strip)
  show ?thesis
    by (subst (1) normalize_whitespace_def) (simp only: 1 2 3)
qed

text \<open>
  The claim as stated fails: the filters turn \<open>Page  1\<close>, with two spaces, into \<open>Page 1\<close>,
  and a second run removes this page marker and returns the empty text.
\<close>

theorem noise_filters_not_idempotent:
  "noise_filters ''Page  1'' = Inr ''Page 1'' \<and> noise_filters ''Page 1'' = Inr [] \<and>
   noise_filters ''Page 1'' \<noteq> Inr ''Page 1''"
  by code_simp

subsection \<open>The lines after the removal of duplicates\<close>








subsection \<open>Stretches of white space\<close>

lemma is_space_newline: "is_space newline"
  by (simp add: is_space_def newline_def codepoint_def)

lemma newlines_ahead_Nil [simp]: "newlines_ahead [] = 0"
  by (simp add: newlines_ahead_def)

lemma newlines_ahead_newline [simp]: "newlines_ahead (newline # s) = Suc (newlines_ahead s)"
  by (simp add: newlines_ahead_def is_space_newline)






lemma wide_gap_zero [simp]: "wide_gap 0 s"
  by (cases s) simp_all








subsection \<open>The lines of a text\<close>

lemma split_on_not_Nil [simp]: "split_on sep s \<noteq> []"
  by (induction s) (auto split: list.splits)









subsection \<open>The cleaned text\<close>




end
